theory Spec2Isabelle
  imports Main
begin

section \<open>The tagger of musify-cli: rule bindings, their compilation and their application\<close>

text \<open>
  The development follows \<^verbatim>\<open>musify_cli/config/operations/tagger/_tagger.py\<close>.

  Items are mutable objects; the model names an item by a reference of type \<open>'i\<close> and keeps
  what the items hold in a state of type \<open>'s\<close>, passed along explicitly. A collection is a
  sequence of item references, and \<^verbatim>\<open>item in coll\<close> is membership of the reference.
  The empty tuple \<^verbatim>\<open>()\<close> that Python uses as the fall-back collection is the empty list.

  A call that can raise returns an \<open>outcome\<close>: either the state it returned with, or the
  exception together with the state at the moment it was raised (mutations made before
  an exception stay).
\<close>

subsection \<open>Data model\<close>

datatype ('e, 's) outcome = Raised 'e 's | Returned 's

text \<open>
  The method \<^verbatim>\<open>Setter.set(item, collection)\<close>: it mutates the item in place, or raises.
\<close>

type_synonym ('i, 's, 'e) setter = "'i \<Rightarrow> 'i list \<Rightarrow> 's \<Rightarrow> ('e, 's) outcome"

text \<open>
  The dataclass \<^verbatim>\<open>FilteredSetter\<close>. Its filter is called on a collection of items and
  returns the matching ones; it reads the items' values (hence the state) and changes
  nothing. The field is named \<open>filter'\<close> since \<open>filter\<close> is the list function of HOL.
\<close>

record ('i, 's, 'e) FilteredSetter =
  filter' :: "'s \<Rightarrow> 'i list \<Rightarrow> 'i list"
  setters :: "('i, 's, 'e) setter list"

text \<open>
  The class \<^verbatim>\<open>Tagger\<close>: its only attribute is the sequence of filtered setters
  (\<^verbatim>\<open>self.setters\<close>, built in \<^verbatim>\<open>from_config\<close> as \<^verbatim>\<open>tag_setters\<close>).
\<close>

record ('i, 's, 'e) Tagger =
  tag_setters :: "('i, 's, 'e) FilteredSetter list"

subsection \<open>Applying a binding to one item: \<^verbatim>\<open>FilteredSetter.set_tags\<close>\<close>

text \<open>
  \<^verbatim>\<open>for setter in self.setters: setter.set(item, collection)\<close>.
  An exception of a setter leaves the loop at once.
\<close>

fun set_each :: "('i, 's, 'e) setter list \<Rightarrow> 'i \<Rightarrow> 'i list \<Rightarrow> 's \<Rightarrow> ('e, 's) outcome" where
  "set_each [] item collection s = Returned s"
| "set_each (setter # rest) item collection s =
     (case setter item collection s of
        Raised e s' \<Rightarrow> Raised e s'
      | Returned s' \<Rightarrow> set_each rest item collection s')"

definition FilteredSetter_set_tags ::
  "('i, 's, 'e) FilteredSetter \<Rightarrow> 'i \<Rightarrow> 'i list \<Rightarrow> 's \<Rightarrow> ('e, 's) outcome" where
  "FilteredSetter_set_tags self item collection s = set_each (setters self) item collection s"

subsection \<open>Applying all bindings to many items: \<^verbatim>\<open>Tagger.set_tags\<close>\<close>

text \<open>
  \<^verbatim>\<open>next(iter(coll for coll in collections if item in coll), ())\<close>: the first collection,
  in the order of \<^verbatim>\<open>collections\<close>, that holds the item; the empty tuple when there is none.
\<close>

definition owning_collection :: "'i list list \<Rightarrow> 'i \<Rightarrow> 'i list" where
  "owning_collection collections item =
     (case find (\<lambda>coll. item \<in> set coll) collections of
        Some coll \<Rightarrow> coll
      | None \<Rightarrow> [])"

text \<open>The inner loop, \<^verbatim>\<open>for item in filtered_items\<close>, for one filtered setter.\<close>

fun set_tags_items ::
  "('i, 's, 'e) FilteredSetter \<Rightarrow> 'i list \<Rightarrow> 'i list list \<Rightarrow> 's \<Rightarrow> ('e, 's) outcome" where
  "set_tags_items setter [] collections s = Returned s"
| "set_tags_items setter (item # rest) collections s =
     (case FilteredSetter_set_tags setter item (owning_collection collections item) s of
        Raised e s' \<Rightarrow> Raised e s'
      | Returned s' \<Rightarrow> set_tags_items setter rest collections s')"

text \<open>
  The outer loop, \<^verbatim>\<open>for setter in self.setters\<close>: the filter is called on
  \<^verbatim>\<open>items\<close>, in the state the earlier bindings left, and its result is iterated.
\<close>

fun set_tags_loop ::
  "('i, 's, 'e) FilteredSetter list \<Rightarrow> 'i list \<Rightarrow> 'i list list \<Rightarrow> 's \<Rightarrow> ('e, 's) outcome" where
  "set_tags_loop [] items collections s = Returned s"
| "set_tags_loop (setter # rest) items collections s =
     (case set_tags_items setter (filter' setter s items) collections s of
        Raised e s' \<Rightarrow> Raised e s'
      | Returned s' \<Rightarrow> set_tags_loop rest items collections s')"

definition Tagger_set_tags ::
  "('i, 's, 'e) Tagger \<Rightarrow> 'i list \<Rightarrow> 'i list list \<Rightarrow> 's \<Rightarrow> ('e, 's) outcome" where
  "Tagger_set_tags self items collections s = set_tags_loop (tag_setters self) items collections s"

subsection \<open>Compiling a configuration: \<^verbatim>\<open>Tagger.from_config\<close>\<close>

text \<open>
  The exceptions of compilation. \<open>KeyError\<close> is what the subscript of a mapping raises for
  a missing key, \<open>StopIteration\<close> what \<^verbatim>\<open>next\<close> raises on an exhausted iterator; the other
  three are raised by the collaborators.
\<close>

datatype error =
    KeyError string
  | StopIteration
  | UnknownFieldError string
  | InvalidFilterSpecError
  | InvalidSetterSpecError

text \<open>
  The three collaborators \<^verbatim>\<open>from_config\<close> calls are not part of this module and are
  parameters of the model: \<^verbatim>\<open>get_comparers_filter\<close> builds a filter from the value under
  \<^verbatim>\<open>"filter"\<close>, \<^verbatim>\<open>LocalTrackField.from_name\<close> returns the fields a name stands for, and
  \<^verbatim>\<open>setter_from_config\<close> builds the setter of a field from its configuration. Each may
  raise. \<open>'a\<close> is the type of configuration values, \<open>'f\<close> the type of field identifiers.
\<close>

record ('a, 'f, 'i, 's, 'e) factories =
  get_comparers_filter :: "'a \<Rightarrow> error + ('s \<Rightarrow> 'i list \<Rightarrow> 'i list)"
  from_name :: "string \<Rightarrow> error + 'f list"
  setter_from_config :: "'f \<Rightarrow> 'a \<Rightarrow> error + ('i, 's, 'e) setter"

text \<open>
  An element of a raw configuration is a \<^verbatim>\<open>FilteredSetter\<close> already built, or a mapping
  from keys to values. The mapping is kept as the list of its entries in their order
  (a Python \<^verbatim>\<open>dict\<close> iterates in insertion order, and its keys are distinct).
  The configuration as a whole is a \<^verbatim>\<open>Tagger\<close> or a list of such elements.
\<close>

datatype ('a, 'i, 's, 'e) rule_set =
    Built "('i, 's, 'e) FilteredSetter"
  | Spec "(string \<times> 'a) list"

datatype ('a, 'i, 's, 'e) config =
    Compiled "('i, 's, 'e) Tagger"
  | Raw "('a, 'i, 's, 'e) rule_set list"

text \<open>
  The list comprehension of \<^verbatim>\<open>from_config\<close>: for each entry whose key is neither
  \<^verbatim>\<open>"filter"\<close> nor \<^verbatim>\<open>"field"\<close>, in order,
  \<^verbatim>\<open>setter_from_config(next(iter(LocalTrackField.from_name(fld))), rule_config)\<close>.
\<close>

fun build_setters ::
  "('a, 'f, 'i, 's, 'e) factories \<Rightarrow> (string \<times> 'a) list \<Rightarrow> error + ('i, 's, 'e) setter list" where
  "build_setters env [] = Inr []"
| "build_setters env ((fld, rule_config) # entries) =
     (if fld \<in> set [''filter'', ''field''] then build_setters env entries
      else
        (case from_name env fld of
           Inl e \<Rightarrow> Inl e
         | Inr enums \<Rightarrow>
             (case enums of
                [] \<Rightarrow> Inl StopIteration
              | f # _ \<Rightarrow>
                  (case setter_from_config env f rule_config of
                     Inl e \<Rightarrow> Inl e
                   | Inr setter \<Rightarrow>
                       (case build_setters env entries of
                          Inl e \<Rightarrow> Inl e
                        | Inr rest \<Rightarrow> Inr (setter # rest))))))"

text \<open>The body of \<^verbatim>\<open>for rule_set in config\<close>: the filtered setter of one element.\<close>

definition build_rule ::
  "('a, 'f, 'i, 's, 'e) factories \<Rightarrow> ('a, 'i, 's, 'e) rule_set \<Rightarrow> error + ('i, 's, 'e) FilteredSetter" where
  "build_rule env rule_set =
     (case rule_set of
        Built setter \<Rightarrow> Inr setter
      | Spec entries \<Rightarrow>
          (case map_of entries ''filter'' of
             None \<Rightarrow> Inl (KeyError ''filter'')
           | Some filter_config \<Rightarrow>
               (case get_comparers_filter env filter_config of
                  Inl e \<Rightarrow> Inl e
                | Inr condition \<Rightarrow>
                    (case build_setters env entries of
                       Inl e \<Rightarrow> Inl e
                     | Inr built \<Rightarrow> Inr \<lparr>filter' = condition, setters = built\<rparr>))))"

fun build_rules ::
  "('a, 'f, 'i, 's, 'e) factories \<Rightarrow> ('a, 'i, 's, 'e) rule_set list \<Rightarrow>
     error + ('i, 's, 'e) FilteredSetter list" where
  "build_rules env [] = Inr []"
| "build_rules env (rule_set # rest) =
     (case build_rule env rule_set of
        Inl e \<Rightarrow> Inl e
      | Inr setter \<Rightarrow>
          (case build_rules env rest of
             Inl e \<Rightarrow> Inl e
           | Inr others \<Rightarrow> Inr (setter # others)))"

definition from_config ::
  "('a, 'f, 'i, 's, 'e) factories \<Rightarrow> ('a, 'i, 's, 'e) config \<Rightarrow> error + ('i, 's, 'e) Tagger" where
  "from_config env config =
     (case config of
        Compiled tagger \<Rightarrow> Inr tagger
      | Raw rule_sets \<Rightarrow>
          (case build_rules env rule_sets of
             Inl e \<Rightarrow> Inl e
           | Inr built \<Rightarrow> Inr \<lparr>tag_setters = built\<rparr>))"

subsection \<open>The collaborators, as the specification describes them\<close>

text \<open>
  Modelled from the spec: \<^verbatim>\<open>LocalTrackField.from_name\<close>, the resolution of a field name,
  which belongs to the \<^verbatim>\<open>musify\<close> library and is not among the sources. The
  specification describes it as a case-insensitive exact-name lookup against the fixed
  enumeration of fields, which fails with \<open>UnknownFieldError\<close> when nothing matches. The
  enumeration is the parameter \<open>members\<close>: the names with the fields they stand for.
  Upper case is taken letter by letter over the ASCII letters.
\<close>

definition upper_char :: "char \<Rightarrow> char" where
  "upper_char c =
     (case map_of (zip ''abcdefghijklmnopqrstuvwxyz'' ''ABCDEFGHIJKLMNOPQRSTUVWXYZ'') c of
        Some u \<Rightarrow> u
      | None \<Rightarrow> c)"

definition upper :: "string \<Rightarrow> string" where
  "upper name = map upper_char name"

definition LocalTrackField_from_name :: "(string \<times> 'f) list \<Rightarrow> string \<Rightarrow> error + 'f list" where
  "LocalTrackField_from_name members name =
     (case filter (\<lambda>member. upper (fst member) = upper name) members of
        [] \<Rightarrow> Inl (UnknownFieldError name)
      | found \<Rightarrow> Inr (map snd found))"

text \<open>
  Modelled from the spec: the class \<^verbatim>\<open>Setter\<close> of \<^verbatim>\<open>tagger/_setter.py\<close>, which is not among
  the sources. The specification describes a setter as bound to exactly one field: given
  the item and its collection it computes a value, which may fail, and assigns the value
  to that field of the item; it writes nothing else. The state is then the store of the
  fields' values, \<open>'i \<Rightarrow> 'f \<Rightarrow> 'v\<close>. The computation may read any of it.
\<close>

record ('i, 'f, 'v, 'e) Setter =
  field :: "'f"
  compute :: "'i \<Rightarrow> 'i list \<Rightarrow> ('i \<Rightarrow> 'f \<Rightarrow> 'v) \<Rightarrow> 'e + 'v"

definition Setter_set :: "('i, 'f, 'v, 'e) Setter \<Rightarrow> ('i, 'i \<Rightarrow> 'f \<Rightarrow> 'v, 'e) setter" where
  "Setter_set self item collection s =
     (case compute self item collection s of
        Inl e \<Rightarrow> Raised e s
      | Inr v \<Rightarrow> Returned (s(item := (s item)(field self := v))))"

text \<open>A filtered setter whose setters are all of this kind.\<close>

definition field_setters ::
  "(('i \<Rightarrow> 'f \<Rightarrow> 'v) \<Rightarrow> 'i list \<Rightarrow> 'i list) \<Rightarrow> ('i, 'f, 'v, 'e) Setter list \<Rightarrow>
     ('i, 'i \<Rightarrow> 'f \<Rightarrow> 'v, 'e) FilteredSetter" where
  "field_setters condition ss = \<lparr>filter' = condition, setters = map Setter_set ss\<rparr>"

subsection \<open>Observing the calls\<close>

text \<open>
  What a setter is called with is observed the way a test double would: \<open>traced tag setter\<close>
  behaves as \<open>setter\<close> on the first component of the state and appends its tag and its two
  arguments to the list of calls kept in the second, whether \<open>setter\<close> returns or raises.
\<close>

fun traced ::
  "'t \<Rightarrow> ('i, 's, 'e) setter \<Rightarrow> ('i, 's \<times> ('t \<times> 'i \<times> 'i list) list, 'e) setter" where
  "traced tag setter item collection (s, calls) =
     (case setter item collection s of
        Raised e s' \<Rightarrow> Raised e (s', calls @ [(tag, item, collection)])
      | Returned s' \<Rightarrow> Returned (s', calls @ [(tag, item, collection)]))"

definition traced_setters ::
  "('s \<times> ('t \<times> 'i \<times> 'i list) list \<Rightarrow> 'i list \<Rightarrow> 'i list) \<Rightarrow> ('t \<times> ('i, 's, 'e) setter) list \<Rightarrow>
     ('i, 's \<times> ('t \<times> 'i \<times> 'i list) list, 'e) FilteredSetter" where
  "traced_setters condition tagged =
     \<lparr>filter' = condition, setters = map (\<lambda>(tag, setter). traced tag setter) tagged\<rparr>"

text \<open>The state an outcome carries, and the calls recorded in it.\<close>

definition final_state :: "('e, 's) outcome \<Rightarrow> 's" where
  "final_state r = (case r of Raised e s \<Rightarrow> s | Returned s \<Rightarrow> s)"

definition calls_of :: "('e, 's \<times> 'c list) outcome \<Rightarrow> 'c list" where
  "calls_of r = snd (final_state r)"

subsection \<open>A small configuration, for the examples\<close>

text \<open>
  Six members of the enumeration of fields; items are numbered; configuration values and
  field values are integers, tags of observed calls are strings. The example filter keeps the items whose genre is the
  configured value; the example setter assigns the configured value, and a negative
  value is a configuration no setter can be built from. Two more setters: \<open>refuse\<close> fails
  on one given item, \<open>increment\<close> adds to the value the field holds.
\<close>

datatype track_field = TITLE | ARTIST | ALBUM | GENRE | BPM | YEAR

definition example_members :: "(string \<times> track_field) list" where
  "example_members =
     [(''TITLE'', TITLE), (''ARTIST'', ARTIST), (''ALBUM'', ALBUM),
      (''GENRE'', GENRE), (''BPM'', BPM), (''YEAR'', YEAR)]"

definition genre_is :: "int \<Rightarrow> (nat \<Rightarrow> track_field \<Rightarrow> int) \<Rightarrow> nat list \<Rightarrow> nat list" where
  "genre_is g s items = filter (\<lambda>item. s item GENRE = g) items"

definition assign :: "track_field \<Rightarrow> int \<Rightarrow> (nat, track_field, int, string) Setter" where
  "assign f v = \<lparr>field = f, compute = (\<lambda>item collection s. Inr v)\<rparr>"

definition refuse :: "track_field \<Rightarrow> nat \<Rightarrow> (nat, track_field, int, string) Setter" where
  "refuse f bad =
     \<lparr>field = f,
      compute = (\<lambda>item collection s. if item = bad then Inl ''invalid value'' else Inr 1)\<rparr>"

definition increment :: "track_field \<Rightarrow> int \<Rightarrow> (nat, track_field, int, string) Setter" where
  "increment f d = \<lparr>field = f, compute = (\<lambda>item collection s. Inr (s item f + d))\<rparr>"

definition example_factories ::
  "(int, track_field, nat, nat \<Rightarrow> track_field \<Rightarrow> int, string) factories" where
  "example_factories =
     \<lparr>get_comparers_filter = (\<lambda>g. Inr (genre_is g)),
      from_name = LocalTrackField_from_name example_members,
      setter_from_config =
        (\<lambda>f v. if v < 0 then Inl InvalidSetterSpecError else Inr (Setter_set (assign f v)))\<rparr>"

text \<open>A store of three tracks: the first two of genre 1, the third of genre 2.\<close>

definition three_tracks :: "nat \<Rightarrow> track_field \<Rightarrow> int" where
  "three_tracks item f = (if f = GENRE then (if item = 3 then 2 else 1) else 0)"

section \<open>Properties of compilation\<close>

text \<open>
  Claim C6. Compiling a configuration that is already a compiled tagger returns that
  tagger itself, whatever the factories are: the same bindings in the same order.
\<close>

theorem from_config_compiled_passthrough:
  "from_config env (Compiled x) = Inr x \<and>
   (case from_config env (Compiled x) of Inl e \<Rightarrow> False | Inr t \<Rightarrow> tag_setters t = tag_setters x)"
  by (simp add: from_config_def)

subsection \<open>Compilation of a raw configuration\<close>

lemma build_rules_append:
  "build_rules env (xs @ ys) =
     (case build_rules env xs of
        Inl e \<Rightarrow> Inl e
      | Inr bs \<Rightarrow> (case build_rules env ys of Inl e \<Rightarrow> Inl e | Inr cs \<Rightarrow> Inr (bs @ cs)))"
  by (induction xs) (auto split: sum.splits)

lemma build_setters_append:
  "build_setters env (xs @ ys) =
     (case build_setters env xs of
        Inl e \<Rightarrow> Inl e
      | Inr bs \<Rightarrow> (case build_setters env ys of Inl e \<Rightarrow> Inl e | Inr cs \<Rightarrow> Inr (bs @ cs)))"
  by (induction xs) (auto split: sum.splits list.splits if_splits)

lemma from_name_unknown:
  "\<forall>member\<in>set members. upper (fst member) \<noteq> upper k \<Longrightarrow>
   LocalTrackField_from_name members k = Inl (UnknownFieldError k)"
proof -
  assume "\<forall>member\<in>set members. upper (fst member) \<noteq> upper k"
  then have "filter (\<lambda>member. upper (fst member) = upper k) members = []"
    by (simp add: filter_empty_conv)
  then show ?thesis by (simp add: LocalTrackField_from_name_def)
qed

lemma build_rules_length:
  "build_rules env cfg = Inr bs \<Longrightarrow> length bs = length cfg"
  by (induction cfg arbitrary: bs) (auto split: sum.splits)

lemma build_rules_built_nth:
  "build_rules env cfg = Inr bs \<Longrightarrow> k < length cfg \<Longrightarrow> cfg ! k = Built b \<Longrightarrow> bs ! k = b"
proof (induction cfg arbitrary: bs k)
  case Nil
  then show ?case by simp
next
  case (Cons r rs)
  from Cons.prems(1) obtain c cs where c: "build_rule env r = Inr c"
    and cs: "build_rules env rs = Inr cs" and bs: "bs = c # cs"
    by (auto split: sum.splits)
  show ?case
  proof (cases k)
    case 0
    with Cons.prems(3) c bs show ?thesis by (simp add: build_rule_def)
  next
    case (Suc j)
    with Cons.prems cs bs Cons.IH [of cs j] show ?thesis by simp
  qed
qed

lemma build_rules_all_built: "build_rules env (map Built bs) = Inr bs"
  by (induction bs) (auto simp: build_rule_def)

lemma build_setters_order:
  "build_setters env entries = Inr gs \<Longrightarrow>
   list_all2 (\<lambda>entry g. \<exists>f fs. from_name env (fst entry) = Inr (f # fs) \<and>
                 setter_from_config env f (snd entry) = Inr g)
     (filter (\<lambda>entry. fst entry \<noteq> ''filter'' \<and> fst entry \<noteq> ''field'') entries) gs"
proof (induction entries arbitrary: gs)
  case Nil
  then show ?case by simp
next
  case (Cons entry entries)
  obtain k v where kv: "entry = (k, v)" by (cases entry)
  show ?case
  proof (cases "k = ''filter'' \<or> k = ''field''")
    case True
    with Cons kv show ?thesis by auto
  next
    case False
    with Cons.prems kv obtain f fs g rest where
      "from_name env k = Inr (f # fs)" "setter_from_config env f v = Inr g"
      "build_setters env entries = Inr rest" "gs = g # rest"
      by (auto split: sum.splits list.splits)
    with Cons.IH [of rest] False kv show ?thesis by auto
  qed
qed


lemma build_setters_unknown_fails:
  assumes "k \<noteq> ''filter''" "k \<noteq> ''field''" "from_name env k = Inl err"
  shows "\<exists>e. build_setters env (early @ (k, v) # late) = Inl e"
  using assms by (cases "build_setters env early") (simp_all add: build_setters_append)

lemma build_setters_unknown_first:
  assumes "k \<noteq> ''filter''" "k \<noteq> ''field''" "from_name env k = Inl err"
    and "build_setters env early = Inr gs"
  shows "build_setters env (early @ (k, v) # late) = Inl err"
  using assms by (simp add: build_setters_append)

lemma build_rule_unknown_fails:
  assumes "k \<noteq> ''filter''" "k \<noteq> ''field''" "from_name env k = Inl err"
  shows "\<exists>e. build_rule env (Spec (early @ (k, v) # late)) = Inl e"
proof -
  from build_setters_unknown_fails [OF assms] obtain e
    where "build_setters env (early @ (k, v) # late) = Inl e" by blast
  then show ?thesis
    by (simp add: build_rule_def split: option.splits sum.splits)
qed

lemma build_rules_fails_at:
  assumes "build_rule env r = Inl e"
  shows "\<exists>e'. build_rules env (before @ r # after) = Inl e'"
  using assms by (cases "build_rules env before") (simp_all add: build_rules_append)

lemma build_rules_first_failure:
  assumes "build_rules env before = Inr bs" "build_rule env r = Inl e"
  shows "build_rules env (before @ r # after) = Inl e"
  using assms by (simp add: build_rules_append)

text \<open>
  Claim C5, as amended. A raw configuration holding a rule-spec with a key other than
  \<^verbatim>\<open>filter\<close> and \<^verbatim>\<open>field\<close> that matches no member of the enumeration of fields, whatever
  the case of its letters, is never compiled: \<open>from_config\<close> raises and returns no tagger.
  The exception is \<open>UnknownFieldError\<close> for that key when nothing fails before the key is
  reached: the elements before the rule-spec are built, the rule-spec has a \<^verbatim>\<open>filter\<close>
  entry the filter factory accepts, and the setters of the entries before the key are
  built.
\<close>

theorem unknown_field_fails_compilation:
  assumes "k \<noteq> ''filter''" and "k \<noteq> ''field''"
    and "from_name env = LocalTrackField_from_name members"
    and "\<forall>member\<in>set members. upper (fst member) \<noteq> upper k"
  shows "(\<exists>e. from_config env (Raw (before @ Spec (early @ (k, v) # late) # after)) = Inl e) \<and>
         ((\<exists>bs. build_rules env before = Inr bs) \<and>
          (\<exists>filter_config condition.
              map_of (early @ (k, v) # late) ''filter'' = Some filter_config \<and>
              get_comparers_filter env filter_config = Inr condition) \<and>
          (\<exists>gs. build_setters env early = Inr gs)
          \<longrightarrow> from_config env (Raw (before @ Spec (early @ (k, v) # late) # after))
                = Inl (UnknownFieldError k))"
proof -
  let ?rule = "Spec (early @ (k, v) # late)"
  have unknown: "from_name env k = Inl (UnknownFieldError k)"
    using assms(3,4) by (simp add: from_name_unknown)
  obtain e where "build_rule env ?rule = Inl e"
    using build_rule_unknown_fails [OF assms(1,2) unknown] by blast
  then obtain e' where "build_rules env (before @ ?rule # after) = Inl e'"
    using build_rules_fails_at by blast
  then have no_tagger: "\<exists>e. from_config env (Raw (before @ ?rule # after)) = Inl e"
    by (simp add: from_config_def)
  have typed: "from_config env (Raw (before @ ?rule # after)) = Inl (UnknownFieldError k)"
    if before: "build_rules env before = Inr bs"
      and key: "map_of (early @ (k, v) # late) ''filter'' = Some filter_config"
      and cond: "get_comparers_filter env filter_config = Inr condition"
      and early: "build_setters env early = Inr gs"
    for bs filter_config condition gs
  proof -
    have "build_setters env (early @ (k, v) # late) = Inl (UnknownFieldError k)"
      using build_setters_unknown_first [OF assms(1,2) unknown early] .
    with key cond have "build_rule env ?rule = Inl (UnknownFieldError k)"
      by (simp add: build_rule_def)
    with before have "build_rules env (before @ ?rule # after) = Inl (UnknownFieldError k)"
      by (rule build_rules_first_failure)
    then show ?thesis by (simp add: from_config_def)
  qed
  from no_tagger typed show ?thesis by blast
qed

lemma upper_not_a_real_field:
  "\<forall>member\<in>set example_members. upper (fst member) \<noteq> upper ''not_a_real_field''"
  by (simp add: example_members_def upper_def upper_char_def)

theorem unknown_field_fails_compilation_witness:
  "from_config example_factories
     (Raw [Spec [(''filter'', 1), (''not_a_real_field'', 5)]])
   = Inl (UnknownFieldError ''not_a_real_field'')"
proof -
  have a: "''not_a_real_field'' \<noteq> ''filter''" and b: "''not_a_real_field'' \<noteq> ''field''"
    by simp_all
  have c: "from_name example_factories = LocalTrackField_from_name example_members"
    by (simp add: example_factories_def)
  have pre: "(\<exists>bs. build_rules example_factories [] = Inr bs) \<and>
          (\<exists>filter_config condition.
              map_of ([(''filter'', 1)] @ (''not_a_real_field'', 5) # []) ''filter'' = Some filter_config \<and>
              get_comparers_filter example_factories filter_config = Inr condition) \<and>
          (\<exists>gs. build_setters example_factories [(''filter'', 1)] = Inr gs)"
    by (simp add: example_factories_def)
  from unknown_field_fails_compilation [OF a b c upper_not_a_real_field,
      of "[]" "[(''filter'', 1)]" 5 "[]" "[]"] pre
  show ?thesis by simp
qed

text \<open>
  The claim as first stated promises \<open>UnknownFieldError\<close> for every rule-spec with such a
  key. The rule-spec \<^verbatim>\<open>{"not_a_real_field": 5}\<close> has one and no \<^verbatim>\<open>filter\<close> entry: the
  subscript \<^verbatim>\<open>rule_set["filter"]\<close> is evaluated first and raises \<open>KeyError\<close>.
\<close>

theorem unknown_field_without_filter_counterexample:
  "LocalTrackField_from_name example_members ''not_a_real_field''
     = Inl (UnknownFieldError ''not_a_real_field'') \<and>
   from_config example_factories (Raw [Spec [(''not_a_real_field'', 5)]])
     = Inl (KeyError ''filter'') \<and>
   from_config example_factories (Raw [Spec [(''not_a_real_field'', 5)]])
     \<noteq> Inl (UnknownFieldError ''not_a_real_field'')"
  by (simp add: from_config_def build_rule_def from_name_unknown upper_not_a_real_field)


text \<open>
  Claim C10. When \<open>from_config\<close> reaches a rule-spec mapping without a \<^verbatim>\<open>filter\<close> key (the
  elements before it having been built), it raises the \<open>KeyError\<close> of the mapping access,
  not \<open>InvalidFilterSpecError\<close>, and returns no tagger; no factory is consulted for that
  rule-spec, so this holds whatever the factories are.
\<close>

theorem missing_filter_key_raises_KeyError:
  assumes "''filter'' \<notin> fst ` set entries"
    and "build_rules env before = Inr bs"
  shows "from_config env (Raw (before @ Spec entries # after)) = Inl (KeyError ''filter'') \<and>
         from_config env (Raw (before @ Spec entries # after)) \<noteq> Inl InvalidFilterSpecError"
proof -
  from assms(1) have "map_of entries ''filter'' = None"
    by (simp add: map_of_eq_None_iff)
  then have "build_rule env (Spec entries) = Inl (KeyError ''filter'')"
    by (simp add: build_rule_def)
  with assms(2) have "build_rules env (before @ Spec entries # after) = Inl (KeyError ''filter'')"
    by (rule build_rules_first_failure)
  then show ?thesis by (simp add: from_config_def)
qed

theorem missing_filter_key_raises_KeyError_witness:
  "from_config example_factories (Raw [Spec [(''filter'', 1), (''bpm'', 120)], Spec [(''bpm'', 120)]])
     = Inl (KeyError ''filter'')"
proof -
  have a: "''filter'' \<notin> fst ` set [(''bpm'', 120::int)]" by simp
  have up: "upper ''bpm'' = ''BPM''" by (simp add: upper_def upper_char_def)
  have b: "build_rules example_factories [Spec [(''filter'', 1), (''bpm'', 120)]]
             = Inr [\<lparr>filter' = genre_is 1, setters = [Setter_set (assign BPM 120)]\<rparr>]"
    by (simp add: build_rule_def example_factories_def LocalTrackField_from_name_def
          example_members_def up upper_def upper_char_def)
  from missing_filter_key_raises_KeyError [OF a b, of "[]"] show ?thesis by simp
qed

text \<open>
  Claim C9. In a raw configuration, an element that is already a \<open>FilteredSetter\<close> is put
  into the resulting tagger as it is and at its own position: the tagger has one binding
  per element, and the binding at the position of a built element is that element. No
  factory is consulted for it: a configuration of built elements only compiles to
  exactly these elements under any factories, failing ones included.
\<close>

theorem built_elements_kept_verbatim:
  "(from_config env (Raw cfg) = Inr t \<longrightarrow>
      length (tag_setters t) = length cfg \<and>
      (\<forall>k b. k < length cfg \<and> cfg ! k = Built b \<longrightarrow> tag_setters t ! k = b)) \<and>
   from_config env (Raw (map Built bs)) = Inr \<lparr>tag_setters = bs\<rparr>"
proof -
  have "length (tag_setters t) = length cfg \<and>
      (\<forall>k b. k < length cfg \<and> cfg ! k = Built b \<longrightarrow> tag_setters t ! k = b)"
    if "from_config env (Raw cfg) = Inr t"
  proof -
    from that obtain built where built: "build_rules env cfg = Inr built"
      and t: "t = \<lparr>tag_setters = built\<rparr>"
      by (auto simp: from_config_def split: sum.splits)
    from built have "length built = length cfg" by (rule build_rules_length)
    moreover have "built ! k = b" if "k < length cfg" "cfg ! k = Built b" for k b
      using build_rules_built_nth [OF built that] .
    ultimately show ?thesis using t by simp
  qed
  moreover have "from_config env (Raw (map Built bs)) = Inr \<lparr>tag_setters = bs\<rparr>"
    by (simp add: from_config_def build_rules_all_built)
  ultimately show ?thesis by blast
qed

theorem built_elements_kept_verbatim_witness:
  "\<exists>t. from_config example_factories
          (Raw [Spec [(''filter'', 1), (''bpm'', 120)],
                Built (field_setters (genre_is 2) [assign YEAR 1999])]) = Inr t \<and>
       length (tag_setters t) = 2 \<and>
       tag_setters t ! 1 = field_setters (genre_is 2) [assign YEAR 1999]"
proof -
  let ?b = "field_setters (genre_is 2) [assign YEAR 1999]"
  let ?cfg = "[Spec [(''filter'', 1::int), (''bpm'', 120)], Built ?b]"
  have "from_config example_factories (Raw ?cfg)
          = Inr \<lparr>tag_setters = [\<lparr>filter' = genre_is 1, setters = [Setter_set (assign BPM 120)]\<rparr>, ?b]\<rparr>"
    by (simp add: from_config_def build_rule_def example_factories_def
          LocalTrackField_from_name_def example_members_def upper_def upper_char_def)
  then obtain t where t: "from_config example_factories (Raw ?cfg) = Inr t" by blast
  from built_elements_kept_verbatim [of example_factories ?cfg t "[]"] t
  have "length (tag_setters t) = length ?cfg"
    and "\<forall>k b. k < length ?cfg \<and> ?cfg ! k = Built b \<longrightarrow> tag_setters t ! k = b"
    by blast+
  then have "length (tag_setters t) = 2" and "tag_setters t ! 1 = ?b"
    by simp_all
  with t show ?thesis by blast
qed

section \<open>Properties of application\<close>

subsection \<open>The loops\<close>

lemma set_each_append:
  "set_each (xs @ ys) item coll s =
     (case set_each xs item coll s of
        Raised e s' \<Rightarrow> Raised e s'
      | Returned s' \<Rightarrow> set_each ys item coll s')"
  by (induction xs arbitrary: s) (auto split: outcome.splits)

lemma set_tags_items_append:
  "set_tags_items b (xs @ ys) colls s =
     (case set_tags_items b xs colls s of
        Raised e s' \<Rightarrow> Raised e s'
      | Returned s' \<Rightarrow> set_tags_items b ys colls s')"
  by (induction xs arbitrary: s) (auto split: outcome.splits)

lemma set_tags_loop_append:
  "set_tags_loop (xs @ ys) items colls s =
     (case set_tags_loop xs items colls s of
        Raised e s' \<Rightarrow> Raised e s'
      | Returned s' \<Rightarrow> set_tags_loop ys items colls s')"
  by (induction xs arbitrary: s) (auto split: outcome.splits)

lemma set_each_invariant:
  assumes "\<And>g s. g \<in> set gs \<Longrightarrow> Inv s \<Longrightarrow> Inv (final_state (g item coll s))"
    and "Inv s"
  shows "Inv (final_state (set_each gs item coll s))"
  using assms
proof (induction gs arbitrary: s)
  case Nil
  then show ?case by (simp add: final_state_def)
next
  case (Cons g gs)
  have step: "Inv (final_state (g item coll s))"
    using Cons.prems by simp
  show ?case
  proof (cases "g item coll s")
    case (Raised e s')
    with step show ?thesis by simp
  next
    case (Returned s')
    with step have "Inv s'" by (simp add: final_state_def)
    moreover have "\<And>h t. h \<in> set gs \<Longrightarrow> Inv t \<Longrightarrow> Inv (final_state (h item coll t))"
      using Cons.prems(1) by simp
    ultimately have "Inv (final_state (set_each gs item coll s'))"
      using Cons.IH by blast
    with Returned show ?thesis by simp
  qed
qed

lemma set_tags_items_invariant:
  assumes "\<And>g i s. g \<in> set (setters b) \<Longrightarrow> i \<in> set matched \<Longrightarrow> Inv s \<Longrightarrow>
             Inv (final_state (g i (owning_collection colls i) s))"
    and "Inv s"
  shows "Inv (final_state (set_tags_items b matched colls s))"
  using assms
proof (induction matched arbitrary: s)
  case Nil
  then show ?case by (simp add: final_state_def)
next
  case (Cons i matched)
  have "\<And>g t. g \<in> set (setters b) \<Longrightarrow> Inv t \<Longrightarrow>
          Inv (final_state (g i (owning_collection colls i) t))"
    using Cons.prems(1) by simp
  then have "Inv (final_state (set_each (setters b) i (owning_collection colls i) s))"
    using Cons.prems(2) by (rule set_each_invariant)
  then have step: "Inv (final_state (FilteredSetter_set_tags b i (owning_collection colls i) s))"
    by (simp add: FilteredSetter_set_tags_def)
  show ?case
  proof (cases "FilteredSetter_set_tags b i (owning_collection colls i) s")
    case (Raised e s')
    with step show ?thesis by simp
  next
    case (Returned s')
    with step have "Inv s'" by (simp add: final_state_def)
    moreover have "\<And>g j t. g \<in> set (setters b) \<Longrightarrow> j \<in> set matched \<Longrightarrow> Inv t \<Longrightarrow>
          Inv (final_state (g j (owning_collection colls j) t))"
      using Cons.prems(1) by simp
    ultimately have "Inv (final_state (set_tags_items b matched colls s'))"
      using Cons.IH by blast
    with Returned show ?thesis by simp
  qed
qed

lemma set_tags_loop_invariant:
  assumes "\<And>b g i s. b \<in> set bs \<Longrightarrow> g \<in> set (setters b) \<Longrightarrow> Inv s \<Longrightarrow>
             Inv (final_state (g i (owning_collection colls i) s))"
    and "Inv s"
  shows "Inv (final_state (set_tags_loop bs items colls s))"
  using assms
proof (induction bs arbitrary: s)
  case Nil
  then show ?case by (simp add: final_state_def)
next
  case (Cons b bs)
  have "\<And>g i t. g \<in> set (setters b) \<Longrightarrow> i \<in> set (filter' b s items) \<Longrightarrow> Inv t \<Longrightarrow>
          Inv (final_state (g i (owning_collection colls i) t))"
    by (rule Cons.prems(1) [of b]) simp_all
  then have step: "Inv (final_state (set_tags_items b (filter' b s items) colls s))"
    using Cons.prems(2) by (rule set_tags_items_invariant)
  show ?case
  proof (cases "set_tags_items b (filter' b s items) colls s")
    case (Raised e s')
    with step show ?thesis by simp
  next
    case (Returned s')
    with step have "Inv s'" by (simp add: final_state_def)
    moreover have "\<And>c g i t. c \<in> set bs \<Longrightarrow> g \<in> set (setters c) \<Longrightarrow> Inv t \<Longrightarrow>
          Inv (final_state (g i (owning_collection colls i) t))"
      by (rule Cons.prems(1)) simp_all
    ultimately have "Inv (final_state (set_tags_loop bs items colls s'))"
      using Cons.IH by blast
    with Returned show ?thesis by simp
  qed
qed

lemma set_tags_loop_returns:
  assumes "\<And>b g i c s. b \<in> set bs \<Longrightarrow> g \<in> set (setters b) \<Longrightarrow> \<exists>s'. g i c s = Returned s'"
  shows "\<exists>s'. set_tags_loop bs items colls s = Returned s'"
proof -
  have each: "\<exists>s'. set_each gs i c s = Returned s'"
    if "\<And>g s. g \<in> set gs \<Longrightarrow> \<exists>s'. g i c s = Returned s'" for gs i c s
    using that
  proof (induction gs arbitrary: s)
    case Nil
    then show ?case by simp
  next
    case (Cons g gs)
    from Cons.prems [of g s] obtain s1 where "g i c s = Returned s1" by auto
    moreover have "\<exists>s'. set_each gs i c s1 = Returned s'"
      by (rule Cons.IH) (simp add: Cons.prems)
    ultimately show ?case by simp
  qed
  have items: "\<exists>s'. set_tags_items b matched colls s = Returned s'"
    if "b \<in> set bs" for b matched s
  proof (induction matched arbitrary: s)
    case Nil
    then show ?case by simp
  next
    case (Cons i matched)
    have "\<exists>s'. set_each (setters b) i (owning_collection colls i) s = Returned s'"
      by (rule each) (rule assms [OF that])
    then obtain s1 where "FilteredSetter_set_tags b i (owning_collection colls i) s = Returned s1"
      by (auto simp: FilteredSetter_set_tags_def)
    with Cons.IH [of s1] show ?case by simp
  qed
  show ?thesis
    using assms items
  proof (induction bs arbitrary: s)
    case Nil
    then show ?case by simp
  next
    case (Cons b bs)
    from Cons.prems(2) [of b "filter' b s items" s] obtain s1
      where s1: "set_tags_items b (filter' b s items) colls s = Returned s1" by auto
    have "\<exists>s'. set_tags_loop bs items colls s1 = Returned s'"
    proof (rule Cons.IH)
      show "\<exists>s'. g i c s = Returned s'" if "b' \<in> set bs" "g \<in> set (setters b')" for b' g i c s
        using Cons.prems(1) [of b' g] that by simp
      show "\<exists>s'. set_tags_items b' matched colls s = Returned s'" if "b' \<in> set bs" for b' matched s
        using Cons.prems(2) [of b'] that by simp
    qed
    with s1 show ?case by simp
  qed
qed

subsection \<open>The collection an item is given\<close>

lemma final_state_traced:
  "final_state (traced tag g item coll (s, calls)) =
     (final_state (g item coll s), calls @ [(tag, item, coll)])"
  by (simp add: final_state_def split: outcome.splits)

lemma owning_collection_none:
  "\<forall>coll\<in>set colls. item \<notin> set coll \<Longrightarrow> owning_collection colls item = []"
  by (induction colls) (auto simp: owning_collection_def)

lemma owning_collection_Cons:
  "owning_collection (c # cs) item = (if item \<in> set c then c else owning_collection cs item)"
  by (simp add: owning_collection_def)

lemma owning_collection_cases:
  "(\<exists>before coll after. colls = before @ coll # after \<and> owning_collection colls item = coll \<and>
       item \<in> set coll \<and> (\<forall>c\<in>set before. item \<notin> set c)) \<or>
   (owning_collection colls item = [] \<and> (\<forall>c\<in>set colls. item \<notin> set c))"
proof (induction colls)
  case Nil
  then show ?case by (simp add: owning_collection_def)
next
  case (Cons c cs)
  show ?case
  proof (cases "item \<in> set c")
    case True
    then have "c # cs = [] @ c # cs \<and> owning_collection (c # cs) item = c \<and>
               item \<in> set c \<and> (\<forall>x\<in>set []. item \<notin> set x)"
      by (simp add: owning_collection_Cons)
    then show ?thesis by blast
  next
    case False
    then have own: "owning_collection (c # cs) item = owning_collection cs item"
      by (simp add: owning_collection_Cons)
    from Cons.IH show ?thesis
    proof
      assume "\<exists>before coll after. cs = before @ coll # after \<and>
                owning_collection cs item = coll \<and>
                item \<in> set coll \<and> (\<forall>x\<in>set before. item \<notin> set x)"
      then obtain before coll after where cs: "cs = before @ coll # after"
        and coll: "owning_collection cs item = coll"
        and mem: "item \<in> set coll"
        and nb: "\<forall>x\<in>set before. item \<notin> set x"
        by blast
      have "c # cs = (c # before) @ coll # after"
        by (simp add: cs)
      moreover have "\<forall>x\<in>set (c # before). item \<notin> set x"
        using nb False by simp
      moreover have "owning_collection (c # cs) item = coll"
        using own coll by simp
      ultimately show ?thesis using mem by blast
    next
      assume "owning_collection cs item = [] \<and> (\<forall>x\<in>set cs. item \<notin> set x)"
      with False own show ?thesis by simp
    qed
  qed
qed

lemma traced_setters_calls_owned:
  fixes calls :: "('t \<times> 'i \<times> 'i list) list" and s :: 's
  assumes "\<forall>(tag, i, coll)\<in>set calls. coll = owning_collection colls i"
  shows "\<forall>(tag, i, coll)\<in>set (calls_of (set_tags_loop
            (map (\<lambda>(condition, tagged). traced_setters condition tagged) bindings)
            items colls (s, calls))). coll = owning_collection colls i"
proof -
  define Inv where "Inv = (\<lambda>st :: 's \<times> ('t \<times> 'i \<times> 'i list) list.
      \<forall>(tag, i, coll)\<in>set (snd st). coll = owning_collection colls i)"
  have "Inv (final_state (set_tags_loop
            (map (\<lambda>(condition, tagged). traced_setters condition tagged) bindings)
            items colls (s, calls)))"
  proof (rule set_tags_loop_invariant [where Inv = Inv])
    show "Inv (s, calls)" using assms by (simp add: Inv_def)
  next
    fix b g i st
    assume b: "b \<in> set (map (\<lambda>(condition, tagged). traced_setters condition tagged) bindings)"
      and g: "g \<in> set (setters b)" and inv: "Inv st"
    from b g obtain tag h where "g = traced tag h"
      by (auto simp: traced_setters_def)
    then show "Inv (final_state (g i (owning_collection colls i) st))"
      using inv by (cases st) (simp add: final_state_traced Inv_def del: traced.simps)
  qed
  then show ?thesis by (simp add: calls_of_def Inv_def)
qed

lemmas example_defs = Tagger_set_tags_def FilteredSetter_set_tags_def field_setters_def
  traced_setters_def Setter_set_def assign_def refuse_def genre_is_def three_tracks_def
  owning_collection_def calls_of_def final_state_def

text \<open>
  Claim C1. Whatever the bindings, the items and the collections, every call of a setter
  made during \<open>Tagger_set_tags\<close> receives, together with the item, the collection found by
  scanning \<open>collections\<close> in their order for the first one that holds the item. That
  collection is characterised as follows: either \<open>collections\<close> splits into collections
  not holding the item, followed by the chosen one, which holds it; or no collection
  holds the item and the empty one is passed. In particular an item held by exactly one
  of two collections is passed that one, in whichever order the two are given.
\<close>

theorem setters_receive_first_containing_collection:
  "(\<forall>(tag, item, coll)\<in>set (calls_of (Tagger_set_tags
        \<lparr>tag_setters = map (\<lambda>(condition, tagged). traced_setters condition tagged) bindings\<rparr>
        items collections (s, []))).
      coll = owning_collection collections item) \<and>
   ((\<exists>before coll after. collections = before @ coll # after \<and>
        owning_collection collections i = coll \<and>
        i \<in> set coll \<and> (\<forall>c\<in>set before. i \<notin> set c)) \<or>
    (owning_collection collections i = [] \<and> (\<forall>c\<in>set collections. i \<notin> set c))) \<and>
   (j \<in> set c1 \<and> j \<notin> set c2 \<longrightarrow>
      owning_collection [c1, c2] j = c1 \<and> owning_collection [c2, c1] j = c1)"
proof (intro conjI)
  show "\<forall>(tag, item, coll)\<in>set (calls_of (Tagger_set_tags
        \<lparr>tag_setters = map (\<lambda>(condition, tagged). traced_setters condition tagged) bindings\<rparr>
        items collections (s, []))).
      coll = owning_collection collections item"
    unfolding Tagger_set_tags_def
    using traced_setters_calls_owned [of "[]" collections bindings items s] by simp
  show "(\<exists>before coll after. collections = before @ coll # after \<and>
        owning_collection collections i = coll \<and>
        i \<in> set coll \<and> (\<forall>c\<in>set before. i \<notin> set c)) \<or>
    (owning_collection collections i = [] \<and> (\<forall>c\<in>set collections. i \<notin> set c))"
    by (rule owning_collection_cases)
  show "j \<in> set c1 \<and> j \<notin> set c2 \<longrightarrow>
      owning_collection [c1, c2] j = c1 \<and> owning_collection [c2, c1] j = c1"
    by (simp add: owning_collection_Cons)
qed

theorem setters_receive_first_containing_collection_witness:
  "calls_of (Tagger_set_tags
      \<lparr>tag_setters = map (\<lambda>(condition, tagged). traced_setters condition tagged)
         [(\<lambda>st. genre_is 1 (fst st), [(''bpm'', Setter_set (assign BPM 120))])]\<rparr>
      [2] [[1, 2, 3], [4, 5, 6, 7, 8]] (three_tracks, []))
   = [(''bpm'', 2, [1, 2, 3])] \<and>
   owning_collection [[1, 2, 3], [4, 5, 6, 7, 8]] (2::nat) = [1, 2, 3] \<and>
   owning_collection [[4, 5, 6, 7, 8], [1, 2, 3]] (2::nat) = [1, 2, 3]"
proof -
  have run: "calls_of (Tagger_set_tags
      \<lparr>tag_setters = map (\<lambda>(condition, tagged). traced_setters condition tagged)
         [(\<lambda>st. genre_is 1 (fst st), [(''bpm'', Setter_set (assign BPM 120))])]\<rparr>
      [2] [[1, 2, 3], [4, 5, 6, 7, 8]] (three_tracks, []))
   = [(''bpm'', 2, [1, 2, 3])]"
    by (simp add: example_defs)
  have mem: "(2::nat) \<in> set [1, 2, 3] \<and> (2::nat) \<notin> set [4, 5, 6, 7, 8]"
    by simp
  have "(2::nat) \<in> set [1, 2, 3] \<and> (2::nat) \<notin> set [4, 5, 6, 7, 8] \<longrightarrow>
        owning_collection [[1, 2, 3], [4, 5, 6, 7, 8]] (2::nat) = [1, 2, 3] \<and>
        owning_collection [[4, 5, 6, 7, 8], [1, 2, 3]] (2::nat) = [1, 2, 3]"
    by (rule setters_receive_first_containing_collection [THEN conjunct2, THEN conjunct2])
  from this mem
  have "owning_collection [[1, 2, 3], [4, 5, 6, 7, 8]] (2::nat) = [1, 2, 3] \<and>
        owning_collection [[4, 5, 6, 7, 8], [1, 2, 3]] (2::nat) = [1, 2, 3]"
    by (rule mp)
  with run show ?thesis by (rule conjI)
qed

text \<open>
  Claim C7. For an item that no collection holds, the body of the loop over the matched
  items is the call of the binding's \<open>set_tags\<close> with the empty collection: it raises only
  what that call raises. In a whole run every call of a setter for such an item receives
  the empty collection, and a run whose setters never raise returns, also when its first
  item belongs to no collection.
\<close>

theorem item_without_collection_gets_empty_collection:
  assumes "\<forall>coll\<in>set collections. item \<notin> set coll"
  shows "set_tags_items setter (item # rest) collections s =
           (case FilteredSetter_set_tags setter item [] s of
              Raised e s' \<Rightarrow> Raised e s'
            | Returned s' \<Rightarrow> set_tags_items setter rest collections s') \<and>
         (\<forall>(tag, i, coll)\<in>set (calls_of (Tagger_set_tags
              \<lparr>tag_setters = map (\<lambda>(condition, tagged). traced_setters condition tagged) bindings\<rparr>
              items collections (t, []))).
            i = item \<longrightarrow> coll = []) \<and>
         ((\<forall>b\<in>set (tag_setters tagger). \<forall>g\<in>set (setters b). \<forall>i c u. \<exists>u'. g i c u = Returned u')
            \<longrightarrow> (\<exists>u'. Tagger_set_tags tagger (item # others) collections u0 = Returned u'))"
proof (intro conjI)
  have none: "owning_collection collections item = []"
    using assms by (rule owning_collection_none)
  then show "set_tags_items setter (item # rest) collections s =
           (case FilteredSetter_set_tags setter item [] s of
              Raised e s' \<Rightarrow> Raised e s'
            | Returned s' \<Rightarrow> set_tags_items setter rest collections s')"
    by simp
  have "\<forall>(tag, i, coll)\<in>set (calls_of (set_tags_loop
            (map (\<lambda>(condition, tagged). traced_setters condition tagged) bindings)
            items collections (t, []))). coll = owning_collection collections i"
    by (rule traced_setters_calls_owned) simp
  with none show "\<forall>(tag, i, coll)\<in>set (calls_of (Tagger_set_tags
              \<lparr>tag_setters = map (\<lambda>(condition, tagged). traced_setters condition tagged) bindings\<rparr>
              items collections (t, []))).
            i = item \<longrightarrow> coll = []"
    by (auto simp: Tagger_set_tags_def)
  show "(\<forall>b\<in>set (tag_setters tagger). \<forall>g\<in>set (setters b). \<forall>i c u. \<exists>u'. g i c u = Returned u')
            \<longrightarrow> (\<exists>u'. Tagger_set_tags tagger (item # others) collections u0 = Returned u')"
    unfolding Tagger_set_tags_def
    by (intro impI set_tags_loop_returns) blast
qed

theorem item_without_collection_gets_empty_collection_witness:
  "calls_of (Tagger_set_tags
      \<lparr>tag_setters = map (\<lambda>(condition, tagged). traced_setters condition tagged)
         [(\<lambda>st. genre_is 1 (fst st), [(''bpm'', Setter_set (assign BPM 120))])]\<rparr>
      [9, 1] [[1, 2, 3]] (three_tracks, []))
   = [(''bpm'', 9, []), (''bpm'', 1, [1, 2, 3])] \<and>
   (\<exists>u'. Tagger_set_tags \<lparr>tag_setters = [field_setters (genre_is 1) [assign BPM 120]]\<rparr>
           [9, 1] [[1, 2, 3]] three_tracks = Returned u')"
proof -
  let ?tagger = "\<lparr>tag_setters = [field_setters (genre_is 1) [assign BPM 120]]\<rparr>"
  have none: "\<forall>coll\<in>set [[1, 2, 3]]. (9::nat) \<notin> set coll"
    by simp
  have run: "calls_of (Tagger_set_tags
      \<lparr>tag_setters = map (\<lambda>(condition, tagged). traced_setters condition tagged)
         [(\<lambda>st. genre_is 1 (fst st), [(''bpm'', Setter_set (assign BPM 120))])]\<rparr>
      [9, 1] [[1, 2, 3]] (three_tracks, []))
   = [(''bpm'', 9, []), (''bpm'', 1, [1, 2, 3])]"
    by (simp add: example_defs)
  have total: "\<forall>b\<in>set (tag_setters ?tagger).
      \<forall>g\<in>set (setters b). \<forall>i c u. \<exists>u'. g i c u = Returned u'"
    by (simp add: field_setters_def Setter_set_def assign_def)
  have "(\<forall>b\<in>set (tag_setters ?tagger).
          \<forall>g\<in>set (setters b). \<forall>i c u. \<exists>u'. g i c u = Returned u') \<longrightarrow>
        (\<exists>u'. Tagger_set_tags ?tagger (9 # [1]) [[1, 2, 3]] three_tracks = Returned u')"
    by (rule item_without_collection_gets_empty_collection
          [OF none, THEN conjunct2, THEN conjunct2])
  from this total
  have "\<exists>u'. Tagger_set_tags ?tagger (9 # [1]) [[1, 2, 3]] three_tracks = Returned u'"
    by (rule mp)
  with run show ?thesis by (rule conjI)
qed

subsection \<open>Failure of a setter\<close>

lemma Setter_set_raises_unchanged:
  "Setter_set g item coll s = Raised e s' \<Longrightarrow> s' = s"
  by (auto simp: Setter_set_def split: sum.splits)

text \<open>
  Claim C4. Suppose the bindings before \<open>b\<close> have been applied, the items matched by \<open>b\<close>
  before \<open>i2\<close> have been processed in full and left the state \<open>s2\<close>, the setters of \<open>b\<close>
  before \<open>failing\<close> have run on \<open>i2\<close> and left \<open>s3\<close>, and \<open>failing\<close> raises \<open>e\<close> on \<open>i2\<close>,
  leaving \<open>s4\<close>. Then \<open>Tagger_set_tags\<close> raises \<open>e\<close> to its caller with exactly the state
  \<open>s4\<close>: the mutations of the earlier items and of the setters that ran on \<open>i2\<close> are kept,
  and the outcome does not depend on the remaining setters of \<open>b\<close>, on the items matched
  after \<open>i2\<close> or on the later bindings, none of which is run. A setter as the
  specification describes it assigns only after its value is computed, so that
  \<open>s4 = s3\<close> (lemma \<open>Setter_set_raises_unchanged\<close>) and \<open>i2\<close> holds the effects of the
  earlier setters only.
\<close>

theorem setter_failure_aborts_set_tags:
  assumes "set_tags_loop earlier items collections s0 = Returned s1"
    and "filter' b s1 items = before @ i2 # after"
    and "set_tags_items b before collections s1 = Returned s2"
    and "setters b = prior @ failing # remaining"
    and "set_each prior i2 (owning_collection collections i2) s2 = Returned s3"
    and "failing i2 (owning_collection collections i2) s3 = Raised e s4"
  shows "Tagger_set_tags \<lparr>tag_setters = earlier @ b # later\<rparr> items collections s0 = Raised e s4"
proof -
  have "set_each (setters b) i2 (owning_collection collections i2) s2 = Raised e s4"
    using assms(4,5,6) by (simp add: set_each_append)
  then have "set_tags_items b (i2 # after) collections s2 = Raised e s4"
    by (simp add: FilteredSetter_set_tags_def)
  with assms(3) have "set_tags_items b (before @ i2 # after) collections s1 = Raised e s4"
    by (simp add: set_tags_items_append)
  with assms(2) have "set_tags_loop (b # later) items collections s1 = Raised e s4"
    by simp
  with assms(1) show ?thesis
    by (simp add: Tagger_set_tags_def set_tags_loop_append)
qed

theorem setter_failure_aborts_set_tags_witness:
  "\<exists>s'. Tagger_set_tags
          \<lparr>tag_setters = [field_setters (genre_is 1) [refuse BPM 2, assign YEAR 1999]]\<rparr>
          [1, 2, 3] [[1, 2, 3]] three_tracks = Raised ''invalid value'' s' \<and>
        s' 1 BPM = 1 \<and> s' 1 YEAR = 1999 \<and> s' 2 BPM = 0 \<and> s' 2 YEAR = 0"
proof -
  let ?b = "field_setters (genre_is 1) [refuse BPM 2, assign YEAR 1999]"
  have a1: "set_tags_loop [] [1, 2, 3] [[1, 2, 3]] three_tracks = Returned three_tracks"
    by simp
  have a2: "filter' ?b three_tracks [1, 2, 3] = [1] @ 2 # []"
    by (simp add: field_setters_def genre_is_def three_tracks_def)
  obtain s2 where a3: "set_tags_items ?b [1] [[1, 2, 3]] three_tracks = Returned s2"
    and vals: "s2 1 BPM = 1 \<and> s2 1 YEAR = 1999 \<and> s2 2 BPM = 0 \<and> s2 2 YEAR = 0"
    by (simp add: example_defs)
  have a4: "setters ?b = [] @ Setter_set (refuse BPM 2) # [Setter_set (assign YEAR 1999)]"
    by (simp add: field_setters_def)
  have a5: "set_each [] 2 (owning_collection [[1, 2, 3]] 2) s2 = Returned s2"
    by simp
  have a6: "Setter_set (refuse BPM 2) 2 (owning_collection [[1, 2, 3]] 2) s2
              = Raised ''invalid value'' s2"
    by (simp add: Setter_set_def refuse_def)
  have "Tagger_set_tags \<lparr>tag_setters = [] @ ?b # []\<rparr> [1, 2, 3] [[1, 2, 3]] three_tracks
          = Raised ''invalid value'' s2"
    by (rule setter_failure_aborts_set_tags [OF a1 a2 a3 a4 a5 a6])
  then have "Tagger_set_tags \<lparr>tag_setters = [?b]\<rparr> [1, 2, 3] [[1, 2, 3]] three_tracks
          = Raised ''invalid value'' s2"
    by simp
  with vals show ?thesis by (intro exI [of _ s2] conjI) simp_all
qed

subsection \<open>Overlapping bindings\<close>

lemma Setter_set_frame:
  "item \<noteq> i \<or> field g \<noteq> f \<Longrightarrow> final_state (Setter_set g item coll s) i f = s i f"
  by (auto simp: Setter_set_def final_state_def split: sum.splits)

lemma Setter_set_writes:
  "Setter_set g i coll s = Returned s' \<Longrightarrow> compute g i coll s = Inr (s' i (field g))"
  by (auto simp: Setter_set_def split: sum.splits)

lemma set_each_frame:
  "\<forall>g\<in>set gs. item \<noteq> i \<or> field g \<noteq> f \<Longrightarrow>
   final_state (set_each (map Setter_set gs) item coll s) i f = s i f"
proof (induction gs arbitrary: s)
  case Nil
  then show ?case by (simp add: final_state_def)
next
  case (Cons g gs)
  have here: "final_state (Setter_set g item coll s) i f = s i f"
    using Cons.prems by (intro Setter_set_frame) simp
  show ?case
  proof (cases "Setter_set g item coll s")
    case (Raised e s1)
    with here show ?thesis by (simp add: final_state_def)
  next
    case (Returned s1)
    with here have "s1 i f = s i f" by (simp add: final_state_def)
    moreover have "final_state (set_each (map Setter_set gs) item coll s1) i f = s1 i f"
      using Cons.prems by (intro Cons.IH) simp
    ultimately show ?thesis using Returned by simp
  qed
qed

lemma set_each_last_write:
  assumes "field g = f" and "\<forall>h\<in>set ys. field h \<noteq> f"
    and "set_each (map Setter_set (xs @ g # ys)) i coll s = Returned s'"
  shows "\<exists>t. set_each (map Setter_set xs) i coll s = Returned t \<and>
             compute g i coll t = Inr (s' i f)"
proof -
  from assms(3) obtain t where t: "set_each (map Setter_set xs) i coll s = Returned t"
    and rest: "set_each (map Setter_set (g # ys)) i coll t = Returned s'"
    by (auto simp: set_each_append split: outcome.splits)
  from rest obtain t2 where g: "Setter_set g i coll t = Returned t2"
    and ys: "set_each (map Setter_set ys) i coll t2 = Returned s'"
    by (auto split: outcome.splits)
  have "final_state (set_each (map Setter_set ys) i coll t2) i f = t2 i f"
    using assms(2) by (intro set_each_frame) simp
  with ys have "s' i f = t2 i f" by (simp add: final_state_def)
  moreover from g have "compute g i coll t = Inr (t2 i (field g))"
    by (rule Setter_set_writes)
  ultimately show ?thesis using assms(1) t by auto
qed

lemma set_tags_items_frame:
  assumes "(\<forall>h\<in>set ss. field h \<noteq> f) \<or> i \<notin> set matched"
  shows "final_state (set_tags_items (field_setters cond ss) matched colls s) i f = s i f"
proof -
  define Inv where "Inv = (\<lambda>t :: 'a \<Rightarrow> 'b \<Rightarrow> 'c. t i f = s i f)"
  have "Inv (final_state (set_tags_items (field_setters cond ss) matched colls s))"
  proof (rule set_tags_items_invariant [where Inv = Inv])
    show "Inv s" by (simp add: Inv_def)
  next
    fix g j t
    assume g: "g \<in> set (setters (field_setters cond ss))" and j: "j \<in> set matched"
      and inv: "Inv t"
    from g obtain h where h: "h \<in> set ss" and g_eq: "g = Setter_set h"
      by (auto simp: field_setters_def)
    from assms h j have "j \<noteq> i \<or> field h \<noteq> f" by blast
    then have "final_state (Setter_set h j (owning_collection colls j) t) i f = t i f"
      by (rule Setter_set_frame)
    with inv g_eq show "Inv (final_state (g j (owning_collection colls j) t))"
      by (simp add: Inv_def)
  qed
  then show ?thesis by (simp add: Inv_def)
qed

lemma set_tags_items_last_write:
  assumes "\<exists>g\<in>set ss. field g = f"
    and "set_tags_items (field_setters cond ss) matched colls s = Returned s'"
    and "i \<in> set matched"
  shows "\<exists>pre post xs g ys sa t.
           matched = pre @ i # post \<and> i \<notin> set post \<and>
           ss = xs @ g # ys \<and> field g = f \<and> (\<forall>h\<in>set ys. field h \<noteq> f) \<and>
           set_tags_items (field_setters cond ss) pre colls s = Returned sa \<and>
           set_each (map Setter_set xs) i (owning_collection colls i) sa = Returned t \<and>
           compute g i (owning_collection colls i) t = Inr (s' i f)"
proof -
  let ?b = "field_setters cond ss"
  let ?c = "owning_collection colls i"
  from assms(3) obtain pre post where m: "matched = pre @ i # post" and last: "i \<notin> set post"
    using split_list_last [of i matched] by blast
  from assms(1) obtain xs g ys where ss: "ss = xs @ g # ys" and g: "field g = f"
    and ys: "\<forall>h\<in>set ys. field h \<noteq> f"
    using split_list_last_prop [of ss "\<lambda>g. field g = f"] by blast
  from assms(2) m obtain sa where sa: "set_tags_items ?b pre colls s = Returned sa"
    and tail: "set_tags_items ?b (i # post) colls sa = Returned s'"
    by (auto simp: set_tags_items_append split: outcome.splits)
  from tail obtain sb where one: "set_each (map Setter_set ss) i ?c sa = Returned sb"
    and more: "set_tags_items ?b post colls sb = Returned s'"
    by (auto simp: FilteredSetter_set_tags_def field_setters_def split: outcome.splits)
  from one have "set_each (map Setter_set (xs @ g # ys)) i ?c sa = Returned sb"
    by (simp add: ss)
  from set_each_last_write [OF g ys this] obtain t
    where t: "set_each (map Setter_set xs) i ?c sa = Returned t"
      and v: "compute g i ?c t = Inr (sb i f)"
    by blast
  have "final_state (set_tags_items ?b post colls sb) i f = sb i f"
    using last by (intro set_tags_items_frame) simp
  with more have "s' i f = sb i f" by (simp add: final_state_def)
  with v have "compute g i ?c t = Inr (s' i f)" by simp
  with m last ss g ys sa t show ?thesis by blast
qed

lemma set_tags_loop_frame:
  assumes "\<forall>l1 cond ss l2 sk.
             later = l1 @ (cond, ss) # l2 \<and>
             set_tags_loop (map (\<lambda>(cond, ss). field_setters cond ss) l1) items colls s = Returned sk
             \<longrightarrow> (\<forall>h\<in>set ss. field h \<noteq> f) \<or> i \<notin> set (cond sk items)"
    and "set_tags_loop (map (\<lambda>(cond, ss). field_setters cond ss) later) items colls s = Returned s'"
  shows "s' i f = s i f"
  using assms
proof (induction later arbitrary: s)
  case Nil
  then show ?case by simp
next
  case (Cons pair later)
  obtain cond ss where pair: "pair = (cond, ss)" by (cases pair)
  from Cons.prems(2) pair obtain s1
    where one: "set_tags_items (field_setters cond ss) (cond s items) colls s = Returned s1"
      and more: "set_tags_loop (map (\<lambda>(cond, ss). field_setters cond ss) later) items colls s1
                   = Returned s'"
    by (auto simp: field_setters_def split: outcome.splits)
  have "(\<forall>h\<in>set ss. field h \<noteq> f) \<or> i \<notin> set (cond s items)"
    using Cons.prems(1) [rule_format, of "[]" cond ss later s] pair by simp
  then have "final_state (set_tags_items (field_setters cond ss) (cond s items) colls s) i f = s i f"
    by (rule set_tags_items_frame)
  with one have first: "s1 i f = s i f" by (simp add: final_state_def)
  have "\<forall>l1 cond' ss' l2 sk.
             later = l1 @ (cond', ss') # l2 \<and>
             set_tags_loop (map (\<lambda>(cond, ss). field_setters cond ss) l1) items colls s1 = Returned sk
             \<longrightarrow> (\<forall>h\<in>set ss'. field h \<noteq> f) \<or> i \<notin> set (cond' sk items)"
  proof (intro allI impI)
    fix l1 cond' ss' l2 sk
    assume a: "later = l1 @ (cond', ss') # l2 \<and>
             set_tags_loop (map (\<lambda>(cond, ss). field_setters cond ss) l1) items colls s1 = Returned sk"
    then have "pair # later = (pair # l1) @ (cond', ss') # l2" by simp
    moreover from a one pair
    have "set_tags_loop (map (\<lambda>(cond, ss). field_setters cond ss) (pair # l1)) items colls s
            = Returned sk"
      by (simp add: field_setters_def)
    ultimately show "(\<forall>h\<in>set ss'. field h \<noteq> f) \<or> i \<notin> set (cond' sk items)"
      using Cons.prems(1) [rule_format, of "pair # l1" cond' ss' l2 sk] by blast
  qed
  from Cons.IH [OF this more] first show ?case by simp
qed

text \<open>
  Claim C3. Let the bindings be applied in their order, let the binding \<open>field_setters
  cond2 ss2\<close> have a setter bound to the field \<open>f\<close> and match the item \<open>i\<close>, wherever \<open>i\<close>
  stands among the items, and let every later binding either have no setter bound to \<open>f\<close>
  or not match \<open>i\<close> when it is applied. Whatever the earlier bindings wrote to \<open>f\<close>, when
  \<open>Tagger_set_tags\<close> returns the value of \<open>f\<close> on \<open>i\<close> is the one that binding wrote last:
  the value its last setter bound to \<open>f\<close> computed in its last call for \<open>i\<close>, that is, in
  the state \<open>t\<close> reached from the state \<open>s1\<close> the earlier bindings left by processing the
  matched items before the last occurrence of \<open>i\<close> and then running on \<open>i\<close> the setters
  that precede it.
\<close>

theorem last_write_wins:
  assumes "set_tags_loop earlier items collections s0 = Returned s1"
    and "i \<in> set (cond2 s1 items)"
    and "\<exists>g\<in>set ss2. field g = f"
    and "\<forall>l1 cond ss l2 sk.
           later = l1 @ (cond, ss) # l2 \<and>
           set_tags_loop (earlier @ field_setters cond2 ss2 #
                          map (\<lambda>(cond, ss). field_setters cond ss) l1)
             items collections s0 = Returned sk
           \<longrightarrow> (\<forall>h\<in>set ss. field h \<noteq> f) \<or> i \<notin> set (cond sk items)"
    and "Tagger_set_tags
           \<lparr>tag_setters = earlier @ field_setters cond2 ss2 #
                           map (\<lambda>(cond, ss). field_setters cond ss) later\<rparr>
           items collections s0 = Returned s'"
  shows "\<exists>pre post xs g ys sa t.
           cond2 s1 items = pre @ i # post \<and> i \<notin> set post \<and>
           ss2 = xs @ g # ys \<and> field g = f \<and> (\<forall>h\<in>set ys. field h \<noteq> f) \<and>
           set_tags_items (field_setters cond2 ss2) pre collections s1 = Returned sa \<and>
           set_each (map Setter_set xs) i (owning_collection collections i) sa = Returned t \<and>
           compute g i (owning_collection collections i) t = Inr (s' i f)"
proof -
  let ?fs = "\<lambda>(cond, ss). field_setters cond ss"
  from assms(1,5) obtain s2
    where b2: "set_tags_items (field_setters cond2 ss2) (cond2 s1 items) collections s1 = Returned s2"
      and rest: "set_tags_loop (map ?fs later) items collections s2 = Returned s'"
    by (auto simp: Tagger_set_tags_def set_tags_loop_append field_setters_def
          split: outcome.splits)
  have "\<forall>l1 cond ss l2 sk.
             later = l1 @ (cond, ss) # l2 \<and>
             set_tags_loop (map ?fs l1) items collections s2 = Returned sk
             \<longrightarrow> (\<forall>h\<in>set ss. field h \<noteq> f) \<or> i \<notin> set (cond sk items)"
  proof (intro allI impI)
    fix l1 cond ss l2 sk
    assume a: "later = l1 @ (cond, ss) # l2 \<and>
             set_tags_loop (map ?fs l1) items collections s2 = Returned sk"
    with assms(1) b2
    have "set_tags_loop (earlier @ field_setters cond2 ss2 # map ?fs l1) items collections s0
            = Returned sk"
      by (simp add: set_tags_loop_append field_setters_def)
    with a show "(\<forall>h\<in>set ss. field h \<noteq> f) \<or> i \<notin> set (cond sk items)"
      using assms(4) [rule_format, of l1 cond ss l2 sk] by blast
  qed
  from set_tags_loop_frame [OF this rest] have same: "s' i f = s2 i f" .
  from set_tags_items_last_write [OF assms(3) b2 assms(2)] same show ?thesis by simp
qed

theorem last_write_wins_witness:
  "\<exists>s'. Tagger_set_tags
          \<lparr>tag_setters = [field_setters (genre_is 1) [assign BPM 100]] @
             field_setters (genre_is 1) [assign YEAR 1999, increment BPM 20] #
             map (\<lambda>(cond, ss). field_setters cond ss) [(genre_is 2, [assign BPM 7])]\<rparr>
          [1, 2, 3] [[1, 2, 3]] three_tracks = Returned s' \<and>
        s' 2 BPM = 120 \<and> s' 3 BPM = 7"
proof -
  let ?b1 = "field_setters (genre_is 1) [assign BPM 100]"
  let ?ss2 = "[assign YEAR 1999, increment BPM 20]"
  let ?later = "[(genre_is 2, [assign BPM 7])]"
  obtain s1 where a1: "set_tags_loop [?b1] [1, 2, 3] [[1, 2, 3]] three_tracks = Returned s1"
    and g1: "genre_is 1 s1 [1, 2, 3] = [1, 2]"
    by (simp add: example_defs)
  have a2: "2 \<in> set (genre_is 1 s1 [1, 2, 3])" using g1 by simp
  have a3: "\<exists>g\<in>set ?ss2. field g = BPM" by (simp add: assign_def increment_def)
  obtain s2 where mid: "set_tags_loop ([?b1] @ field_setters (genre_is 1) ?ss2 # [])
                          [1, 2, 3] [[1, 2, 3]] three_tracks = Returned s2"
    and genre: "s2 2 GENRE = 1"
    by (simp add: example_defs increment_def)
  have a4: "\<forall>l1 cond ss l2 sk.
           ?later = l1 @ (cond, ss) # l2 \<and>
           set_tags_loop ([?b1] @ field_setters (genre_is 1) ?ss2 #
                          map (\<lambda>(cond, ss). field_setters cond ss) l1)
             [1, 2, 3] [[1, 2, 3]] three_tracks = Returned sk
           \<longrightarrow> (\<forall>h\<in>set ss. field h \<noteq> BPM) \<or> 2 \<notin> set (cond sk [1, 2, 3])"
  proof (intro allI impI)
    fix l1 :: "(((nat \<Rightarrow> track_field \<Rightarrow> int) \<Rightarrow> nat list \<Rightarrow> nat list) \<times>
                (nat, track_field, int, string) Setter list) list"
    fix cond ss l2 sk
    assume a: "?later = l1 @ (cond, ss) # l2 \<and>
           set_tags_loop ([?b1] @ field_setters (genre_is 1) ?ss2 #
                          map (\<lambda>(cond, ss). field_setters cond ss) l1)
             [1, 2, 3] [[1, 2, 3]] three_tracks = Returned sk"
    then have l1: "l1 = []" and cond: "cond = genre_is 2"
      by (auto simp: Cons_eq_append_conv)
    with a mid have "sk = s2" by simp
    with genre cond have "2 \<notin> set (cond sk [1, 2, 3])"
      by (simp add: genre_is_def)
    then show "(\<forall>h\<in>set ss. field h \<noteq> BPM) \<or> 2 \<notin> set (cond sk [1, 2, 3])" ..
  qed
  obtain s' where a5: "Tagger_set_tags
          \<lparr>tag_setters = [?b1] @ field_setters (genre_is 1) ?ss2 #
             map (\<lambda>(cond, ss). field_setters cond ss) ?later\<rparr>
          [1, 2, 3] [[1, 2, 3]] three_tracks = Returned s'"
    and vals: "s' 2 BPM = 120 \<and> s' 3 BPM = 7"
    by (simp add: example_defs increment_def)
  from last_write_wins [OF a1 a2 a3 a4 a5]
  have "\<exists>pre post xs g ys sa t.
           genre_is 1 s1 [1, 2, 3] = pre @ 2 # post \<and> 2 \<notin> set post \<and>
           ?ss2 = xs @ g # ys \<and> field g = BPM \<and> (\<forall>h\<in>set ys. field h \<noteq> BPM) \<and>
           set_tags_items (field_setters (genre_is 1) ?ss2) pre [[1, 2, 3]] s1 = Returned sa \<and>
           set_each (map Setter_set xs) 2 (owning_collection [[1, 2, 3]] 2) sa = Returned t \<and>
           compute g 2 (owning_collection [[1, 2, 3]] 2) t = Inr (s' 2 BPM)" .
  with a5 vals show ?thesis by blast
qed

subsection \<open>The order of the setters\<close>

lemma set_each_traced_Returned:
  "set_each (map (\<lambda>(tag, setter). traced tag setter) tagged) item coll (s, calls) = Returned (s', calls')
   \<Longrightarrow> calls' = calls @ map (\<lambda>(tag, setter). (tag, item, coll)) tagged \<and>
       set_each (map snd tagged) item coll s = Returned s'"
proof (induction tagged arbitrary: s calls)
  case Nil
  then show ?case by simp
next
  case (Cons tg tagged)
  obtain tag g where tg: "tg = (tag, g)" by (cases tg)
  from Cons.prems tg obtain s1 where g: "g item coll s = Returned s1"
    and rest: "set_each (map (\<lambda>(tag, setter). traced tag setter) tagged) item coll
                 (s1, calls @ [(tag, item, coll)]) = Returned (s', calls')"
    by (auto split: outcome.splits)
  from Cons.IH [OF rest] g tg show ?case by simp
qed

text \<open>
  Claim C8. \<open>FilteredSetter_set_tags\<close> calls each of its setters once, in the order of the
  list, each with the same item and collection, when none of them raises: the calls
  observed are exactly these, and the state is the one the setters produce in turn. The
  order of the list is fixed by compilation: the setters of a compiled rule-spec are
  those built for its entries other than \<^verbatim>\<open>filter\<close> and \<^verbatim>\<open>field\<close>, in the order of the
  entries, each from the first field its key resolves to and from its value.
\<close>

theorem setters_run_in_key_order:
  "(FilteredSetter_set_tags (traced_setters condition tagged) item collection (s, calls)
      = Returned (s', calls')
    \<longrightarrow> calls' = calls @ map (\<lambda>(tag, setter). (tag, item, collection)) tagged \<and>
        set_each (map snd tagged) item collection s = Returned s') \<and>
   (build_rule env (Spec entries) = Inr b
    \<longrightarrow> list_all2 (\<lambda>entry setter. \<exists>f fs. from_name env (fst entry) = Inr (f # fs) \<and>
                        setter_from_config env f (snd entry) = Inr setter)
          (filter (\<lambda>entry. fst entry \<noteq> ''filter'' \<and> fst entry \<noteq> ''field'') entries)
          (setters b))"
proof -
  have "list_all2 (\<lambda>entry setter. \<exists>f fs. from_name env (fst entry) = Inr (f # fs) \<and>
                        setter_from_config env f (snd entry) = Inr setter)
          (filter (\<lambda>entry. fst entry \<noteq> ''filter'' \<and> fst entry \<noteq> ''field'') entries)
          (setters b)"
    if "build_rule env (Spec entries) = Inr b"
  proof -
    from that obtain gs where "build_setters env entries = Inr gs" and "setters b = gs"
      by (auto simp: build_rule_def split: option.splits sum.splits)
    then show ?thesis using build_setters_order by blast
  qed
  then show ?thesis
    using set_each_traced_Returned [of tagged item collection s calls s' calls']
    by (simp add: FilteredSetter_set_tags_def traced_setters_def)
qed

theorem setters_run_in_key_order_witness:
  "(\<exists>s'. FilteredSetter_set_tags
           (traced_setters (\<lambda>st. genre_is 1 (fst st))
              [(''bpm'', Setter_set (assign BPM 120)), (''year'', Setter_set (assign YEAR 1999))])
           1 [1, 2, 3] (three_tracks, [])
         = Returned (s', [(''bpm'', 1, [1, 2, 3]), (''year'', 1, [1, 2, 3])])) \<and>
   (\<exists>b. build_rule example_factories
           (Spec [(''bpm'', 120), (''filter'', 1), (''field'', 7), (''Year'', 1999)]) = Inr b \<and>
        setters b = [Setter_set (assign BPM 120), Setter_set (assign YEAR 1999)])"
proof -
  let ?entries = "[(''bpm'', 120::int), (''filter'', 1), (''field'', 7), (''Year'', 1999)]"
  obtain s' calls' where run: "FilteredSetter_set_tags
           (traced_setters (\<lambda>st. genre_is 1 (fst st))
              [(''bpm'', Setter_set (assign BPM 120)), (''year'', Setter_set (assign YEAR 1999))])
           1 [1, 2, 3] (three_tracks, [])
         = Returned (s', calls')"
    by (simp add: example_defs)
  have built: "build_rule example_factories (Spec ?entries)
     = Inr \<lparr>filter' = genre_is 1,
            setters = [Setter_set (assign BPM 120), Setter_set (assign YEAR 1999)]\<rparr>"
    by (simp add: build_rule_def example_factories_def LocalTrackField_from_name_def
          example_members_def upper_def upper_char_def)
  note instance_of = setters_run_in_key_order [where tagged =
      "[(''bpm'', Setter_set (assign BPM 120)), (''year'', Setter_set (assign YEAR 1999))]"
      and condition = "\<lambda>st. genre_is 1 (fst st)" and item = "1::nat" and collection = "[1, 2, 3]"
      and s = three_tracks and calls = "[]" and s' = s' and calls' = calls'
      and env = example_factories and entries = ?entries
      and b = "\<lparr>filter' = genre_is 1,
            setters = [Setter_set (assign BPM 120), Setter_set (assign YEAR 1999)]\<rparr>"]
  from instance_of run have "calls' = [(''bpm'', 1, [1, 2, 3]), (''year'', 1, [1, 2, 3])]"
    by simp
  with run built show ?thesis by auto
qed

subsection \<open>Filters\<close>

lemma set_tags_items_traced_Returned:
  "set_tags_items (traced_setters condition tagged) matched colls (s, calls) = Returned (s', calls')
   \<Longrightarrow> calls' = calls @ concat (map (\<lambda>item. map (\<lambda>(tag, setter).
                 (tag, item, owning_collection colls item)) tagged) matched)"
proof (induction matched arbitrary: s calls)
  case Nil
  then show ?case by simp
next
  case (Cons item matched)
  from Cons.prems obtain s1 calls1
    where one: "set_each (map (\<lambda>(tag, setter). traced tag setter) tagged) item
                  (owning_collection colls item) (s, calls) = Returned (s1, calls1)"
      and more: "set_tags_items (traced_setters condition tagged) matched colls (s1, calls1)
                  = Returned (s', calls')"
    by (auto simp: FilteredSetter_set_tags_def traced_setters_def split: outcome.splits)
  from set_each_traced_Returned [OF one]
  have "calls1 = calls @ map (\<lambda>(tag, setter). (tag, item, owning_collection colls item)) tagged"
    by simp
  with Cons.IH [OF more] show ?case by simp
qed

lemma set_tags_loop_step:
  assumes "set_tags_loop earlier items colls s0 = Returned s1"
  shows "set_tags_loop (earlier @ b # later) items colls s0 =
           (case set_tags_items b (filter' b s1 items) colls s1 of
              Raised e s' \<Rightarrow> Raised e s'
            | Returned s' \<Rightarrow> set_tags_loop later items colls s')"
  using assms by (simp add: set_tags_loop_append)

lemma set_tags_loop_filters_agree:
  "list_all2 (\<lambda>b b'. setters b = setters b' \<and> (\<forall>s. filter' b s items = filter' b' s items)) bs bs'
   \<Longrightarrow> set_tags_loop bs items colls s = set_tags_loop bs' items colls s"
proof (induction bs bs' arbitrary: s rule: list_all2_induct)
  case Nil
  then show ?case by simp
next
  case (Cons b bs b' bs')
  have "set_tags_items b matched colls u = set_tags_items b' matched colls u"
    for matched u
    using Cons.hyps(1)
    by (induction matched arbitrary: u)
      (simp_all add: FilteredSetter_set_tags_def split: outcome.splits)
  with Cons show ?case by (simp split: outcome.splits)
qed

text \<open>
  Claim C2. Each binding's filter is applied to the full sequence \<open>items\<close> the caller
  supplied, in the state the earlier bindings left, and its result is what the binding
  iterates over; the bindings after it are again run on \<open>items\<close>. Observed on the calls:
  the setters of a binding are called exactly for the items its filter returns on
  \<open>items\<close>, in that order, whatever the earlier bindings matched. And the outcome depends
  on a filter only through what it returns on \<open>items\<close>: filters that agree there, and
  differ on every narrower sequence, give the same run.
\<close>

theorem filters_see_all_items:
  "(set_tags_loop earlier items collections s0 = Returned s1 \<longrightarrow>
      Tagger_set_tags \<lparr>tag_setters = earlier @ b # later\<rparr> items collections s0 =
        (case set_tags_items b (filter' b s1 items) collections s1 of
           Raised e s' \<Rightarrow> Raised e s'
         | Returned s' \<Rightarrow> set_tags_loop later items collections s')) \<and>
   (set_tags_loop before items collections t0 = Returned (t1, calls1) \<and>
    Tagger_set_tags \<lparr>tag_setters = before @ [traced_setters condition tagged]\<rparr>
      items collections t0 = Returned (t2, calls2) \<longrightarrow>
      calls2 = calls1 @ concat (map (\<lambda>item. map (\<lambda>(tag, setter).
                 (tag, item, owning_collection collections item)) tagged)
                 (condition (t1, calls1) items))) \<and>
   (list_all2 (\<lambda>b b'. setters b = setters b' \<and> (\<forall>s. filter' b s items = filter' b' s items))
      (tag_setters tagger) (tag_setters tagger') \<longrightarrow>
      Tagger_set_tags tagger items collections u = Tagger_set_tags tagger' items collections u)"
proof (intro conjI impI)
  assume "set_tags_loop earlier items collections s0 = Returned s1"
  then show "Tagger_set_tags \<lparr>tag_setters = earlier @ b # later\<rparr> items collections s0 =
        (case set_tags_items b (filter' b s1 items) collections s1 of
           Raised e s' \<Rightarrow> Raised e s'
         | Returned s' \<Rightarrow> set_tags_loop later items collections s')"
    by (simp add: Tagger_set_tags_def set_tags_loop_step)
next
  assume both: "set_tags_loop before items collections t0 = Returned (t1, calls1) \<and>
    Tagger_set_tags \<lparr>tag_setters = before @ [traced_setters condition tagged]\<rparr>
      items collections t0 = Returned (t2, calls2)"
  then have "set_tags_items (traced_setters condition tagged) (condition (t1, calls1) items)
               collections (t1, calls1) = Returned (t2, calls2)"
    by (auto simp: Tagger_set_tags_def set_tags_loop_append traced_setters_def
          split: outcome.splits)
  then show "calls2 = calls1 @ concat (map (\<lambda>item. map (\<lambda>(tag, setter).
                 (tag, item, owning_collection collections item)) tagged)
                 (condition (t1, calls1) items))"
    by (rule set_tags_items_traced_Returned)
next
  assume "list_all2 (\<lambda>b b'. setters b = setters b' \<and> (\<forall>s. filter' b s items = filter' b' s items))
      (tag_setters tagger) (tag_setters tagger')"
  then show "Tagger_set_tags tagger items collections u = Tagger_set_tags tagger' items collections u"
    by (simp add: Tagger_set_tags_def set_tags_loop_filters_agree)
qed

theorem filters_see_all_items_witness:
  "calls_of (Tagger_set_tags
      \<lparr>tag_setters =
         [traced_setters (\<lambda>st. genre_is 2 (fst st)) [(''year'', Setter_set (assign YEAR 1999))]] @
         [traced_setters (\<lambda>st. genre_is 1 (fst st)) [(''bpm'', Setter_set (assign BPM 120))]]\<rparr>
      [1, 2, 3] [[1, 2, 3]] (three_tracks, []))
   = [(''year'', 3, [1, 2, 3]), (''bpm'', 1, [1, 2, 3]), (''bpm'', 2, [1, 2, 3])]"
proof -
  let ?b1 = "traced_setters (\<lambda>st. genre_is 2 (fst st)) [(''year'', Setter_set (assign YEAR 1999))]"
  let ?cond = "\<lambda>st :: (nat \<Rightarrow> track_field \<Rightarrow> int) \<times> (string \<times> nat \<times> nat list) list. genre_is 1 (fst st)"
  let ?tagged = "[(''bpm'', Setter_set (assign BPM 120))]"
  obtain t1 where first: "set_tags_loop [?b1] [1, 2, 3] [[1, 2, 3]] (three_tracks, [])
        = Returned (t1, [(''year'', 3, [1, 2, 3])])"
    and matched: "genre_is 1 t1 [1, 2, 3] = [1, 2]"
    by (simp add: example_defs)
  obtain t2 calls2 where whole: "Tagger_set_tags
      \<lparr>tag_setters = [?b1] @ [traced_setters ?cond ?tagged]\<rparr>
      [1, 2, 3] [[1, 2, 3]] (three_tracks, []) = Returned (t2, calls2)"
    by (simp add: example_defs)
  have "set_tags_loop [?b1] [1, 2, 3] [[1, 2, 3]] (three_tracks, [])
          = Returned (t1, [(''year'', 3, [1, 2, 3])]) \<and>
        Tagger_set_tags \<lparr>tag_setters = [?b1] @ [traced_setters ?cond ?tagged]\<rparr>
          [1, 2, 3] [[1, 2, 3]] (three_tracks, []) = Returned (t2, calls2) \<longrightarrow>
        calls2 = [(''year'', 3, [1, 2, 3])] @ concat (map (\<lambda>item. map (\<lambda>(tag, setter).
                 (tag, item, owning_collection [[1, 2, 3]] item)) ?tagged)
                 (?cond (t1, [(''year'', 3, [1, 2, 3])]) [1, 2, 3]))"
    by (rule filters_see_all_items [THEN conjunct2, THEN conjunct1])
  with first whole
  have "calls2 = [(''year'', 3, [1, 2, 3])] @ concat (map (\<lambda>item. map (\<lambda>(tag, setter).
                 (tag, item, owning_collection [[1, 2, 3]] item)) ?tagged)
                 (?cond (t1, [(''year'', 3, [1, 2, 3])]) [1, 2, 3]))"
    by blast
  with matched have "calls2 = [(''year'', 3, [1, 2, 3]), (''bpm'', 1, [1, 2, 3]), (''bpm'', 2, [1, 2, 3])]"
    by (simp add: owning_collection_def)
  with whole show ?thesis by (simp add: calls_of_def final_state_def)
qed

end
